theory Spec2Isabelle
  imports Main
begin

section \<open>Data model of \<open>stan/io/program_reader.hpp\<close>\<close>

text \<open>
  A preprocessing event: (a) line number in the concatenated program, (b) line number in
  the stream being read, (c) a string-valued action, (d) a path. The C++ \<open>int\<close> fields
  are modelled as unbounded integers: signed overflow is undefined in the source, so the
  model describes the runs in which no \<open>int\<close> operation overflows.
\<close>

record preproc_event =
  e_concat_line_num :: int
  e_line_num :: int
  e_action :: string
  e_path :: string

text \<open>A path/position pair, and sequences of them.\<close>

type_synonym dump_t = "string \<times> int"
type_synonym dumps_t = "dump_t list"

text \<open>Both failures of the class are \<open>std::runtime_error\<close> values carrying a message.\<close>

datatype error = runtime_error string

text \<open>
  The state the recursive \<open>read\<close> works on: the members \<open>program\<close> and \<open>history\<close>
  of the object under construction and the counter \<open>concat_line_num\<close>, which the
  constructor owns and every call of \<open>read\<close> receives by reference.
\<close>

record reader =
  concat_line_num :: int
  program :: string
  history :: "preproc_event list"

text \<open>
  The files reachable through \<open>std::ifstream\<close>: a path is mapped to the content of the
  file when the stream opened on it is \<open>good()\<close>, and to \<open>None\<close> otherwise.
\<close>

type_synonym files = "string \<Rightarrow> string option"

text \<open>
  A value of a computation that may throw and may run forever: \<open>None\<close> stands for not
  returning, \<open>Some (Inl e)\<close> for the exception \<open>e\<close>, \<open>Some (Inr x)\<close> for the result.
\<close>

type_synonym 'a outcome = "(error + 'a) option"

section \<open>Helpers that the header includes\<close>

text \<open>
  Modelled from the spec: \<open>read_line\<close> of \<open>stan/io/read_line.hpp\<close> is not among the
  sources. The flattener "reads the active document line by line" and takes an empty
  result as the end of the document; what it reads is appended to the output as it is,
  so a line carries its terminator. The model returns the characters up to and including
  the next newline (or up to the end of the stream), with the rest of the stream.
\<close>

fun read_line :: "string \<Rightarrow> string \<times> string" where
  "read_line [] = ([], [])"
| "read_line (c # cs) =
     (if c = CHR ''\<newline>'' then ([c], cs)
      else (case read_line cs of (line, rest) \<Rightarrow> (c # line, rest)))"

text \<open>
  Modelled from the spec: \<open>starts_with\<close> of \<open>stan/io/starts_with.hpp\<close> is not among
  the sources. "Line begins with the include token": the first argument is a prefix of
  the second.
\<close>

definition starts_with :: "string \<Rightarrow> string \<Rightarrow> bool" where
  "starts_with p s = (length p \<le> length s \<and> take (length p) s = p)"

section \<open>\<open>include_path\<close>\<close>

text \<open>
  \<open>while (line[start] == ' ') ++start;\<close> Reading \<open>line[line.size()]\<close> yields the
  null character, so the loop stops at the end of the string at the latest.
\<close>

function skip_blanks_fwd :: "string \<Rightarrow> nat \<Rightarrow> nat" where
  "skip_blanks_fwd line start =
     (if start < length line \<and> line ! start = CHR '' ''
      then skip_blanks_fwd line (Suc start) else start)"
  by pat_completeness auto
termination
  by (relation "measure (\<lambda>(line, start). length line - start)") auto

declare skip_blanks_fwd.simps [simp del]

text \<open>
  \<open>while (line[end] == ' ') --end;\<close> with \<open>int end\<close>. On the lines \<open>read\<close> passes in,
  position 7 holds \<open>e\<close>, so the loop stops there at the latest; the model also stops below
  position 0, where the source would read out of range.
\<close>

function skip_blanks_bwd :: "string \<Rightarrow> int \<Rightarrow> int" where
  "skip_blanks_bwd line end =
     (if 0 \<le> end \<and> end < int (length line) \<and> line ! nat end = CHR '' ''
      then skip_blanks_bwd line (end - 1) else end)"
  by pat_completeness auto
termination
  by (relation "measure (\<lambda>(line, end). nat (end + 1))") auto

declare skip_blanks_bwd.simps [simp del]

text \<open>
  \<open>line.substr(pos, n)\<close> where \<open>n\<close> is an \<open>int\<close> expression converted to \<open>size_t\<close>: a
  negative \<open>n\<close> becomes a count larger than any string, so the rest of the string is
  taken. The source calls it with \<open>pos \<le> line.size()\<close> only.
\<close>

definition substr :: "string \<Rightarrow> nat \<Rightarrow> int \<Rightarrow> string" where
  "substr s pos n = (if n < 0 then drop pos s else take (nat n) (drop pos s))"

definition include_path :: "string \<Rightarrow> string" where
  "include_path line =
     (let start = skip_blanks_fwd line (length ''#include'');
          end = skip_blanks_bwd line (int (length line) - 1)
      in substr line start (end - int start))"

section \<open>\<open>read\<close>\<close>

definition push_back :: "reader \<Rightarrow> int \<Rightarrow> int \<Rightarrow> string \<Rightarrow> string \<Rightarrow> reader" where
  "push_back st c l a p =
     st\<lparr>history := history st @
          [\<lparr>e_concat_line_num = c, e_line_num = l, e_action = a, e_path = p\<rparr>]\<rparr>"

text \<open>\<open>f.c_str()\<close>: the file name handed to \<open>std::ifstream\<close> ends at the first null character.\<close>

definition c_str :: "string \<Rightarrow> string" where
  "c_str f = takeWhile (\<lambda>c. c \<noteq> CHR 0x00) f"

text \<open>
  The loop over \<open>search_path\<close> inside \<open>read\<close>. The first directory whose file opens is
  read recursively (\<open>rd\<close> is that recursive call); an exception of the nested call is
  rethrown, a normal return is followed by the \<open>restart\<close> event. With no directory left,
  \<open>found_path\<close> is still false and the function throws.
\<close>

definition IncludeNotFound :: error where
  "IncludeNotFound = runtime_error ''could not find include file''"

fun search_loop ::
  "(string \<Rightarrow> string \<Rightarrow> reader \<Rightarrow> reader outcome) \<Rightarrow> files \<Rightarrow> string list \<Rightarrow>
   string \<Rightarrow> string \<Rightarrow> int \<Rightarrow> reader \<Rightarrow> reader outcome" where
  "search_loop rd fs [] incl_path path line_num st = Some (Inl IncludeNotFound)"
| "search_loop rd fs (d # ds) incl_path path line_num st =
     (case fs (c_str (d @ incl_path)) of
        None \<Rightarrow> search_loop rd fs ds incl_path path line_num st
      | Some include_in \<Rightarrow>
          (case rd include_in incl_path st of
             None \<Rightarrow> None
           | Some (Inl e) \<Rightarrow> Some (Inl e)
           | Some (Inr st') \<Rightarrow>
               Some (Inr (push_back st' (concat_line_num st') line_num ''restart'' path))))"

text \<open>The loop over the lines of one stream, \<open>for (int line_num = 1; ; ++line_num)\<close>.\<close>

function read_loop ::
  "(string \<Rightarrow> string \<Rightarrow> reader \<Rightarrow> reader outcome) \<Rightarrow> files \<Rightarrow> string list \<Rightarrow>
   string \<Rightarrow> string \<Rightarrow> int \<Rightarrow> reader \<Rightarrow> reader outcome" where
  "read_loop rd fs search_path path inp line_num st =
     (case read_line inp of (line, rest) \<Rightarrow>
        if line = [] then
          Some (Inr (push_back st (concat_line_num st) (line_num - 1) ''end'' path))
        else if starts_with ''#include '' line then
          (let incl_path = include_path line;
               st1 = push_back st (concat_line_num st) (line_num - 1) ''include'' incl_path
           in case search_loop rd fs search_path incl_path path line_num st1 of
                Some (Inr st2) \<Rightarrow> read_loop rd fs search_path path rest (line_num + 1) st2
              | r \<Rightarrow> r)
        else
          read_loop rd fs search_path path rest (line_num + 1)
            (st\<lparr>concat_line_num := concat_line_num st + 1, program := program st @ line\<rparr>))"
  by pat_completeness auto
termination
proof -
  have whole: "line @ rest = s" if "read_line s = (line, rest)" for s line rest
    using that by (induction s arbitrary: line rest) (auto split: if_splits prod.splits)
  have shorter: "length rest < length s" if "read_line s = (line, rest)" "line \<noteq> []"
    for s line rest
    using whole [OF that(1)] that(2) by auto
  show ?thesis
    by (relation "measure (\<lambda>(rd, fs, search_path, path, inp, line_num, st). length inp)")
       (auto dest: shorter [OF sym])
qed

declare read_loop.simps [simp del]

text \<open>
  \<open>read\<close> calls itself for every included file and nothing bounds the nesting (a file
  that includes itself is read again and again), so the model takes the number of nested
  calls it may make as fuel; \<open>None\<close> means the fuel did not suffice.
\<close>

primrec read ::
  "nat \<Rightarrow> files \<Rightarrow> string \<Rightarrow> string \<Rightarrow> string list \<Rightarrow> reader \<Rightarrow> reader outcome" where
  "read 0 fs inp path search_path st = None"
| "read (Suc n) fs inp path search_path st =
     read_loop (\<lambda>include_in incl_path st'. read n fs include_in incl_path search_path st')
       fs search_path path inp 1
       (push_back st (concat_line_num st) 0 ''start'' path)"

text \<open>The constructor: \<open>int concat_line_num = 0; read(in, name, search_path, concat_line_num);\<close>\<close>

definition program_reader ::
  "nat \<Rightarrow> files \<Rightarrow> string \<Rightarrow> string \<Rightarrow> string list \<Rightarrow> reader outcome" where
  "program_reader n fs inp name search_path =
     read n fs inp name search_path \<lparr>concat_line_num = 0, program = [], history = []\<rparr>"

section \<open>\<open>include_stack\<close> and \<open>include_trace\<close>\<close>

text \<open>
  The loop of \<open>include_stack\<close> over \<open>history\<close>, with its local variables \<open>result\<close>,
  \<open>file\<close>, \<open>file_start\<close> and \<open>concat_start\<close>. Leaving the loop, by \<open>break\<close> or at the
  end of the history, returns the empty sequence.
\<close>

fun include_stack_loop ::
  "int \<Rightarrow> preproc_event list \<Rightarrow> dumps_t \<Rightarrow> string \<Rightarrow> int \<Rightarrow> int \<Rightarrow> dumps_t" where
  "include_stack_loop target [] result file file_start concat_start = []"
| "include_stack_loop target (e # es) result file file_start concat_start =
     (if target \<le> e_concat_line_num e then
        result @ [(file, file_start + target - concat_start)]
      else if e_action e = ''start'' \<or> e_action e = ''restart'' then
        include_stack_loop target es result (e_path e) (e_line_num e) (e_concat_line_num e)
      else if e_action e = ''end'' then
        (if length result = 0 then []
         else include_stack_loop target es (butlast result) file file_start concat_start)
      else if e_action e = ''include'' then
        include_stack_loop target es (result @ [(file, e_line_num e + 1)])
          file file_start concat_start
      else include_stack_loop target es result file file_start concat_start)"

definition include_stack :: "preproc_event list \<Rightarrow> int \<Rightarrow> dumps_t" where
  "include_stack h target =
     include_stack_loop target h [] ''ERROR: UNINITIALIZED'' (- 1) (- 1)"

text \<open>\<open>ss << n\<close> for an \<open>int\<close>: decimal digits, with a minus sign below zero.\<close>

fun show_nat :: "nat \<Rightarrow> string" where
  "show_nat n =
     (if n < 10 then [''0123456789'' ! n]
      else show_nat (n div 10) @ [''0123456789'' ! (n mod 10)])"

declare show_nat.simps [simp del]

definition show_int :: "int \<Rightarrow> string" where
  "show_int i = (if i < 0 then CHR ''-'' # show_nat (nat (- i)) else show_nat (nat i))"

text \<open>The message of the exception \<open>include_trace\<close> throws.\<close>

definition TargetNotFound :: "int \<Rightarrow> error" where
  "TargetNotFound target_line_num =
     runtime_error (''Target line number '' @ show_int target_line_num @ '' not found.''
                    @ [CHR ''\<newline>''])"

text \<open>
  \<open>for (size_t i = x.size() - 1; i-- > 0; )\<close>: the argument is the value of \<open>i\<close> before
  the test; the body runs with \<open>i - 1\<close>.
\<close>

fun included_from_loop :: "dumps_t \<Rightarrow> nat \<Rightarrow> string" where
  "included_from_loop x 0 = []"
| "included_from_loop x (Suc i) =
     ''included from file '' @ [CHR 0x27] @ fst (x ! i) @ [CHR 0x27] @ '' at line ''
       @ show_int (snd (x ! i)) @ [CHR ''\<newline>'']
       @ included_from_loop x i"

text \<open>The text \<open>include_trace\<close> builds once its check has passed (the second stream \<open>ss\<close>).\<close>

definition trace_text :: "dumps_t \<Rightarrow> string" where
  "trace_text x =
     ''in file '' @ [CHR 0x27] @ fst (x ! (length x - 1)) @ [CHR 0x27] @ '' at line ''
       @ show_int (snd (x ! (length x - 1))) @ [CHR ''\<newline>'']
       @ included_from_loop x (length x - 1)"

definition include_trace :: "preproc_event list \<Rightarrow> int \<Rightarrow> error + string" where
  "include_trace h target_line_num =
     (let x = include_stack h target_line_num
      in if length x < 1 \<or> target_line_num < 1
         then Inl (TargetNotFound target_line_num)
         else Inr (trace_text x))"

section \<open>Vocabulary of the specification\<close>

text \<open>A document given by its lines: every line is followed by a newline.\<close>

definition text_of_lines :: "string list \<Rightarrow> string" where
  "text_of_lines ls = concat (map (\<lambda>l. l @ [CHR ''\<newline>'']) ls)"

text \<open>The lines of a stream, as successive calls of \<open>read_line\<close> deliver them.\<close>

function lines_of :: "string \<Rightarrow> string list" where
  "lines_of inp =
     (case read_line inp of (line, rest) \<Rightarrow> if line = [] then [] else line # lines_of rest)"
  by pat_completeness auto
termination
proof -
  have whole: "line @ rest = s" if "read_line s = (line, rest)" for s line rest
    using that by (induction s arbitrary: line rest) (auto split: if_splits prod.splits)
  have shorter: "length rest < length s" if "read_line s = (line, rest)" "line \<noteq> []"
    for s line rest
    using whole [OF that(1)] that(2) by auto
  show ?thesis
    by (relation "measure length") (auto dest: shorter [OF sym])
qed

declare lines_of.simps [simp del]

text \<open>The files and the primary document of the specification's concrete example.\<close>

definition example_files :: files where
  "example_files =
     (\<lambda>p. if p = ''inc/helper.stanfunc''
          then Some (text_of_lines [''real f(real x) {'', ''return x;'', ''}''])
          else None)"

definition example_main :: string where
  "example_main = text_of_lines [''model {'', ''#include helper.stanfunc'', ''}'']"

text \<open>
  Rendering of one provenance entry, following the specification's words: the innermost
  entry as \<open>in file '<path>' at line <line>\<close>, an enclosing one as
  \<open>included from file '<path>' at line <line>\<close>, each on a line of its own.
\<close>

definition spec_in_file :: "dump_t \<Rightarrow> string" where
  "spec_in_file e =
     ''in file '' @ [CHR 0x27] @ fst e @ [CHR 0x27] @ '' at line '' @ show_int (snd e)
       @ [CHR ''\<newline>'']"

definition spec_included_from :: "dump_t \<Rightarrow> string" where
  "spec_included_from e =
     ''included from file '' @ [CHR 0x27] @ fst e @ [CHR 0x27] @ '' at line ''
       @ show_int (snd e) @ [CHR ''\<newline>'']"

definition spec_format :: "dumps_t \<Rightarrow> string" where
  "spec_format chain =
     spec_in_file (last chain) @ concat (map spec_included_from (rev (butlast chain)))"

text \<open>
  The nesting of a log: an \<open>include\<close> event opens a level, an \<open>end\<close> event closes one,
  and an \<open>end\<close> event with no level open has no partner. Scanning a stretch of a log
  from depth \<open>d\<close> gives the depth after it, or nothing when such an \<open>end\<close> is met.
\<close>

fun scan_depth :: "nat \<Rightarrow> preproc_event list \<Rightarrow> nat option" where
  "scan_depth d [] = Some d"
| "scan_depth d (e # es) =
     (if e_action e = ''include'' then scan_depth (Suc d) es
      else if e_action e = ''end'' then (case d of 0 \<Rightarrow> None | Suc d' \<Rightarrow> scan_depth d' es)
      else scan_depth d es)"

text \<open>
  What one call of \<open>read\<close> adds to the log: a stretch whose \<open>include\<close> and \<open>end\<close>
  events pair up, followed by the \<open>end\<close> event of the document itself.
\<close>

definition nested_log :: "reader \<Rightarrow> reader \<Rightarrow> bool" where
  "nested_log st st' \<longleftrightarrow>
     (\<exists>b e. history st' = history st @ b @ [e] \<and> e_action e = ''end'' \<and> scan_depth 0 b = Some 0)"

text \<open>
  The log of a reader state is ordered: the concatenated line numbers of its events do not
  decrease and none exceeds the running counter.
\<close>

definition log_ordered :: "reader \<Rightarrow> bool" where
  "log_ordered st \<longleftrightarrow>
     sorted (map e_concat_line_num (history st)) \<and>
     (\<forall>e\<in>set (history st). e_concat_line_num e \<le> concat_line_num st)"


text \<open>
  An outcome is in order when it is the include-not-found error or a state with a given
  property.
\<close>

definition outcome_ok :: "(reader \<Rightarrow> bool) \<Rightarrow> error + reader \<Rightarrow> bool" where
  "outcome_ok I res = (case res of Inl e \<Rightarrow> e = IncludeNotFound | Inr st \<Rightarrow> I st)"

section \<open>The specification's concrete example\<close>

lemma example_run:
  "program_reader 2 example_files example_main ''main'' [''inc/''] =
     Some (Inr \<lparr>concat_line_num = 5,
       program = text_of_lines [''model {'', ''real f(real x) {'', ''return x;'', ''}'', ''}''],
       history =
         [\<lparr>e_concat_line_num = 0, e_line_num = 0, e_action = ''start'', e_path = ''main''\<rparr>,
          \<lparr>e_concat_line_num = 1, e_line_num = 1, e_action = ''include'',
             e_path = ''helper.stanfunc''\<rparr>,
          \<lparr>e_concat_line_num = 1, e_line_num = 0, e_action = ''start'',
             e_path = ''helper.stanfunc''\<rparr>,
          \<lparr>e_concat_line_num = 4, e_line_num = 3, e_action = ''end'',
             e_path = ''helper.stanfunc''\<rparr>,
          \<lparr>e_concat_line_num = 4, e_line_num = 2, e_action = ''restart'', e_path = ''main''\<rparr>,
          \<lparr>e_concat_line_num = 5, e_line_num = 3, e_action = ''end'', e_path = ''main''\<rparr>]\<rparr>)"
  by code_simp

text \<open>
  Claim C1. The primary document \<open>main\<close> with the lines \<open>model {\<close>,
  \<open>#include helper.stanfunc\<close>, \<open>}\<close>, the search path \<open>inc/\<close> and the file
  \<open>inc/helper.stanfunc\<close> with the lines \<open>real f(real x) {\<close>, \<open>return x;\<close>, \<open>}\<close>
  flatten to the five lines \<open>model {\<close>, \<open>real f(real x) {\<close>, \<open>return x;\<close>, \<open>}\<close>,
  \<open>}\<close>; against the log of that pass, line 1 resolves to \<open>[(main, 1)]\<close>, line 2 to
  \<open>[(main, 2), (helper.stanfunc, 1)]\<close>, line 4 to \<open>[(main, 2), (helper.stanfunc, 3)]\<close>
  and line 5 to \<open>[(main, 3)]\<close>.
\<close>

theorem spec_example_flatten_resolve:
  "\<exists>r. program_reader 2 example_files example_main ''main'' [''inc/''] = Some (Inr r)
     \<and> program r =
         text_of_lines [''model {'', ''real f(real x) {'', ''return x;'', ''}'', ''}'']
     \<and> include_stack (history r) 1 = [(''main'', 1)]
     \<and> include_stack (history r) 2 = [(''main'', 2), (''helper.stanfunc'', 1)]
     \<and> include_stack (history r) 4 = [(''main'', 2), (''helper.stanfunc'', 3)]
     \<and> include_stack (history r) 5 = [(''main'', 3)]"
  unfolding example_run by (simp add: include_stack_def)

section \<open>The chain query and the trace entry point\<close>

lemma include_stack_loop_uncovered:
  "\<forall>e\<in>set es. e_concat_line_num e < target \<Longrightarrow>
   include_stack_loop target es res f a b = []"
  by (induction es arbitrary: res f a b) auto

text \<open>
  Claim C10. \<open>include_stack\<close> itself never fails: it returns a chain for every log and
  every target, the empty chain when no event covers the target. For a target at or below
  zero and a log that begins with the primary document's \<open>start\<close> event at concatenated
  line 0 it returns the singleton chain \<open>[("ERROR: UNINITIALIZED", target)]\<close>, which is
  not empty; such a target is rejected by \<open>include_trace\<close> only.
\<close>

theorem include_stack_never_rejects:
  "((\<forall>e\<in>set h. e_concat_line_num e < target) \<longrightarrow> include_stack h target = [])
   \<and> (target \<le> 0 \<longrightarrow>
        include_stack (\<lparr>e_concat_line_num = 0, e_line_num = 0, e_action = ''start'',
                        e_path = name\<rparr> # es) target
          = [(''ERROR: UNINITIALIZED'', target)]
        \<and> include_trace (\<lparr>e_concat_line_num = 0, e_line_num = 0, e_action = ''start'',
                           e_path = name\<rparr> # es) target
          = Inl (TargetNotFound target))"
  by (simp add: include_stack_def include_trace_def include_stack_loop_uncovered)

theorem include_stack_never_rejects_witness:
  "list_all (\<lambda>e. e_concat_line_num e < 3)
     [\<lparr>e_concat_line_num = 0, e_line_num = 0, e_action = ''start'', e_path = ''a''\<rparr>,
      \<lparr>e_concat_line_num = 2, e_line_num = 2, e_action = ''end'', e_path = ''a''\<rparr>]
   \<and> include_stack
        [\<lparr>e_concat_line_num = 0, e_line_num = 0, e_action = ''start'', e_path = ''a''\<rparr>,
         \<lparr>e_concat_line_num = 2, e_line_num = 2, e_action = ''end'', e_path = ''a''\<rparr>] 3 = []
   \<and> (- 1 :: int) \<le> 0
   \<and> include_stack
        [\<lparr>e_concat_line_num = 0, e_line_num = 0, e_action = ''start'', e_path = ''a''\<rparr>,
         \<lparr>e_concat_line_num = 2, e_line_num = 2, e_action = ''end'', e_path = ''a''\<rparr>] (- 1)
       = [(''ERROR: UNINITIALIZED'', - 1)]
   \<and> include_trace
        [\<lparr>e_concat_line_num = 0, e_line_num = 0, e_action = ''start'', e_path = ''a''\<rparr>,
         \<lparr>e_concat_line_num = 2, e_line_num = 2, e_action = ''end'', e_path = ''a''\<rparr>] (- 1)
       = Inl (TargetNotFound (- 1))"
  using include_stack_never_rejects
    [where h = "[\<lparr>e_concat_line_num = 0, e_line_num = 0, e_action = ''start'',
                   e_path = ''a''\<rparr>,
                 \<lparr>e_concat_line_num = 2, e_line_num = 2, e_action = ''end'',
                   e_path = ''a''\<rparr>]"
       and target = 3]
    include_stack_never_rejects
    [where target = "- 1" and name = "''a''"
       and es = "[\<lparr>e_concat_line_num = 2, e_line_num = 2, e_action = ''end'',
                    e_path = ''a''\<rparr>]"]
  by simp

section \<open>The text of a trace\<close>

lemma included_from_loop_map:
  "n \<le> length x \<Longrightarrow>
   included_from_loop x n = concat (map spec_included_from (rev (take n x)))"
  by (induction n) (simp_all add: take_Suc_conv_app_nth spec_included_from_def)

lemma show_nat_digits: "set (show_nat n) \<subseteq> set ''0123456789''"
proof (induction n rule: show_nat.induct)
  case (1 n)
  have d: "''0123456789'' ! k \<in> set ''0123456789''" if "k < 10" for k
    using that by (intro nth_mem) simp
  show ?case
  proof (cases "n < 10")
    case True
    then show ?thesis using d [of n] by (subst show_nat.simps) simp
  next
    case False
    have "n mod 10 < 10" by simp
    from d [OF this] 1 False show ?thesis by (subst show_nat.simps) simp
  qed
qed

lemma show_int_no_newline: "CHR ''\<newline>'' \<notin> set (show_int i)"
  using show_nat_digits [of "nat i"] show_nat_digits [of "nat (- i)"]
  by (auto simp: show_int_def)

lemma count_spec_included_from:
  "\<forall>e\<in>set xs. CHR ''\<newline>'' \<notin> set (fst e) \<Longrightarrow>
   count_list (concat (map spec_included_from xs)) (CHR ''\<newline>'') = length xs"
  by (induction xs) (simp_all add: spec_included_from_def show_int_no_newline)

lemma count_spec_in_file:
  "CHR ''\<newline>'' \<notin> set (fst e) \<Longrightarrow>
   count_list (spec_in_file e) (CHR ''\<newline>'') = 1"
  by (simp add: spec_in_file_def show_int_no_newline)

text \<open>
  Claim C7. For every non-empty chain the trace text is the last (innermost) entry
  rendered as \<open>in file '<path>' at line <line>\<close>, followed by the preceding entries,
  from the second-last down to the first, each rendered as
  \<open>included from file '<path>' at line <line>\<close>; there is one output line per entry
  (as long as no path holds a newline itself).
\<close>

theorem trace_text_renders_chain:
  assumes "x \<noteq> []"
  shows "trace_text x = spec_format x
     \<and> ((\<forall>e\<in>set x. CHR ''\<newline>'' \<notin> set (fst e)) \<longrightarrow>
          count_list (trace_text x) (CHR ''\<newline>'') = length x)"
proof -
  from assms have l: "last x = x ! (length x - 1)" and b: "butlast x = take (length x - 1) x"
    by (simp_all add: last_conv_nth butlast_conv_take)
  have eq: "trace_text x = spec_format x"
    by (simp add: trace_text_def spec_format_def spec_in_file_def l b included_from_loop_map)
  have "count_list (spec_format x) (CHR ''\<newline>'') = length x"
    if nl: "\<forall>e\<in>set x. CHR ''\<newline>'' \<notin> set (fst e)"
  proof -
    from assms nl have "CHR ''\<newline>'' \<notin> set (fst (last x))" by simp
    moreover from nl have "\<forall>e\<in>set (rev (butlast x)). CHR ''\<newline>'' \<notin> set (fst e)"
      by (auto dest: in_set_butlastD)
    ultimately show ?thesis using assms
      by (simp add: spec_format_def count_spec_in_file count_spec_included_from)
  qed
  with eq show ?thesis by simp
qed

theorem trace_text_renders_chain_witness:
  "[(''main'', 2), (''helper.stanfunc'', 3 :: int)] \<noteq> []
   \<and> list_all (\<lambda>e. CHR ''\<newline>'' \<notin> set (fst e))
         [(''main'', 2), (''helper.stanfunc'', 3 :: int)]
   \<and> trace_text [(''main'', 2), (''helper.stanfunc'', 3)]
       = spec_in_file (''helper.stanfunc'', 3) @ spec_included_from (''main'', 2)
   \<and> count_list (trace_text [(''main'', 2), (''helper.stanfunc'', 3)]) (CHR ''\<newline>'') = 2"
proof -
  let ?x = "[(''main'', 2), (''helper.stanfunc'', 3 :: int)]"
  have ne: "?x \<noteq> []" by simp
  have nl: "\<forall>e\<in>set ?x. CHR ''\<newline>'' \<notin> set (fst e)" by simp
  note t = trace_text_renders_chain [OF ne]
  from t have a: "trace_text ?x = spec_in_file (''helper.stanfunc'', 3) @ spec_included_from (''main'', 2)"
    by (simp add: spec_format_def)
  from t nl have "count_list (trace_text ?x) (CHR ''\<newline>'') = length ?x" by blast
  then have b: "count_list (trace_text ?x) (CHR ''\<newline>'') = 2" by simp
  from nl have nl': "list_all (\<lambda>e. CHR ''\<newline>'' \<notin> set (fst e)) ?x"
    by (simp only: list_all_iff)
  from ne nl' a b show ?thesis by blast
qed

section \<open>Recognising an include directive\<close>

lemma starts_with_iff_append: "starts_with p s \<longleftrightarrow> (\<exists>r. s = p @ r)"
  unfolding starts_with_def
  by (metis append_eq_conv_conj append_take_drop_id length_append le_add1)

lemma skip_blanks_fwd_replicate:
  "ys = [] \<or> hd ys \<noteq> CHR '' '' \<Longrightarrow>
   skip_blanks_fwd (xs @ replicate n (CHR '' '') @ ys) (length xs) = length xs + n"
proof (induction n arbitrary: xs)
  case 0
  then show ?case
    by (subst skip_blanks_fwd.simps) (cases ys; simp add: nth_append)
next
  case (Suc n)
  from Suc.IH [OF Suc.prems, of "xs @ [CHR '' '']"]
  show ?case by (subst skip_blanks_fwd.simps) (simp add: nth_append)
qed

lemma skip_blanks_bwd_newline:
  "skip_blanks_bwd (zs @ [CHR ''\<newline>'']) (int (length zs)) = int (length zs)"
  by (subst skip_blanks_bwd.simps) (simp add: nth_append)

lemma extract_after_token:
  fixes tok p :: string and n :: nat
  assumes "p = [] \<or> hd p \<noteq> CHR '' ''"
  defines "line \<equiv> tok @ replicate n (CHR '' '') @ p @ [CHR ''\<newline>'']"
  shows "substr line (skip_blanks_fwd line (length tok))
           (skip_blanks_bwd line (int (length line) - 1)
              - int (skip_blanks_fwd line (length tok))) = p"
proof -
  from assms(1) have h: "p @ [CHR ''\<newline>''] = [] \<or> hd (p @ [CHR ''\<newline>'']) \<noteq> CHR '' ''"
    by (cases p) auto
  have s: "skip_blanks_fwd line (length tok) = length tok + n"
    unfolding line_def by (rule skip_blanks_fwd_replicate [OF h])
  have e: "skip_blanks_bwd line (int (length line) - 1) = int (length tok + n + length p)"
    using skip_blanks_bwd_newline [of "tok @ replicate n (CHR '' '') @ p"]
    by (simp add: line_def)
  have d: "drop (length tok + n) line = p @ [CHR ''\<newline>'']"
    by (simp add: line_def)
  show ?thesis by (simp add: s e d substr_def)
qed

lemma include_path_terminated:
  assumes "p = [] \<or> hd p \<noteq> CHR '' ''"
  shows "include_path (''#include'' @ replicate n (CHR '' '') @ p @ [CHR ''\<newline>'']) = p"
  unfolding include_path_def Let_def by (rule extract_after_token [OF assms])

text \<open>
  Claim C5, as the code has it. A line is treated as an include directive exactly when
  it begins, at its very first character, with \<open>#include\<close> and one blank; indentation
  is not skipped, and any other line is copied to the output. The include path starts at
  the first character after the token that is not a blank: on a line that ends with its
  newline and whose path neither starts nor ends with a blank, it is exactly the text
  between the blanks after the token and the newline.
\<close>

theorem include_directive_recognised:
  "(starts_with ''#include '' line \<longleftrightarrow> (\<exists>r. line = ''#include '' @ r))
   \<and> (read_line inp = (line, rest) \<and> line \<noteq> [] \<longrightarrow>
        read_loop rd fs search_path path inp line_num st =
          (if starts_with ''#include '' line then
             (case search_loop rd fs search_path (include_path line) path line_num
                     (push_back st (concat_line_num st) (line_num - 1) ''include''
                        (include_path line)) of
                Some (Inr st2) \<Rightarrow> read_loop rd fs search_path path rest (line_num + 1) st2
              | r \<Rightarrow> r)
           else read_loop rd fs search_path path rest (line_num + 1)
                  (st\<lparr>concat_line_num := concat_line_num st + 1,
                      program := program st @ line\<rparr>)))
   \<and> (p = [] \<or> (hd p \<noteq> CHR '' '' \<and> last p \<noteq> CHR '' '') \<longrightarrow>
        include_path (''#include'' @ replicate (Suc n) (CHR '' '') @ p @ [CHR ''\<newline>'']) = p)"
proof (intro conjI impI)
  show "starts_with ''#include '' line \<longleftrightarrow> (\<exists>r. line = ''#include '' @ r)"
    by (rule starts_with_iff_append)
next
  assume "read_line inp = (line, rest) \<and> line \<noteq> []"
  then show "read_loop rd fs search_path path inp line_num st =
          (if starts_with ''#include '' line then
             (case search_loop rd fs search_path (include_path line) path line_num
                     (push_back st (concat_line_num st) (line_num - 1) ''include''
                        (include_path line)) of
                Some (Inr st2) \<Rightarrow> read_loop rd fs search_path path rest (line_num + 1) st2
              | r \<Rightarrow> r)
           else read_loop rd fs search_path path rest (line_num + 1)
                  (st\<lparr>concat_line_num := concat_line_num st + 1,
                      program := program st @ line\<rparr>))"
    by (subst read_loop.simps) (simp add: Let_def)
next
  assume "p = [] \<or> (hd p \<noteq> CHR '' '' \<and> last p \<noteq> CHR '' '')"
  then have "p = [] \<or> hd p \<noteq> CHR '' ''" by blast
  then show "include_path (''#include'' @ replicate (Suc n) (CHR '' '') @ p @ [CHR ''\<newline>'']) = p"
    by (rule include_path_terminated)
qed

theorem include_directive_recognised_witness:
  "starts_with ''#include '' (''#include  a.stan'' @ [CHR ''\<newline>''])
   \<and> read_line (''#include  a.stan'' @ [CHR ''\<newline>''] @ ''}'')
       = (''#include  a.stan'' @ [CHR ''\<newline>''], ''}'')
   \<and> hd ''a.stan'' \<noteq> CHR '' '' \<and> last ''a.stan'' \<noteq> CHR '' ''
   \<and> include_path (''#include  a.stan'' @ [CHR ''\<newline>'']) = ''a.stan''
   \<and> read_loop (\<lambda>i p s. None) (\<lambda>p. None) [] ''main''
         (''#include  a.stan'' @ [CHR ''\<newline>''] @ ''}'') 1
         \<lparr>concat_line_num = 0, program = [], history = []\<rparr>
       = Some (Inl IncludeNotFound)"
  using include_directive_recognised
    [where line = "''#include  a.stan'' @ [CHR ''\<newline>'']" and rest = "''}''"
       and inp = "''#include  a.stan'' @ [CHR ''\<newline>''] @ ''}''"
       and p = "''a.stan''" and n = 1
       and rd = "\<lambda>i p s. None" and fs = "\<lambda>p. None" and search_path = "[]"
       and path = "''main''" and line_num = 1
       and st = "\<lparr>concat_line_num = 0, program = [], history = []\<rparr>"]
  by (simp add: starts_with_def)

text \<open>
  The claim as written fails on both counts. An indented directive is not recognised:
  with no file at hand at all, reading it succeeds and copies the line to the output.
  And blanks between the path and the newline stay in the extracted path.
\<close>

theorem include_directive_counterexample:
  "program_reader 1 (\<lambda>p. None) (''  #include a.stan'' @ [CHR ''\<newline>'']) ''main'' []
     = Some (Inr \<lparr>concat_line_num = 1,
          program = ''  #include a.stan'' @ [CHR ''\<newline>''],
          history =
            [\<lparr>e_concat_line_num = 0, e_line_num = 0, e_action = ''start'', e_path = ''main''\<rparr>,
             \<lparr>e_concat_line_num = 1, e_line_num = 1, e_action = ''end'', e_path = ''main''\<rparr>]\<rparr>)
   \<and> include_path (''#include a.stan  '' @ [CHR ''\<newline>'']) = ''a.stan  ''"
  by code_simp

section \<open>Documents without includes\<close>

lemma read_line_whole: "read_line s = (line, rest) \<Longrightarrow> line @ rest = s"
  by (induction s arbitrary: line rest) (auto split: if_splits prod.splits)

lemma read_line_empty: "read_line s = ([], rest) \<Longrightarrow> s = []"
  by (cases s) (auto split: if_splits prod.splits)

lemma read_loop_plain:
  "\<forall>l\<in>set (lines_of inp). \<not> starts_with ''#include '' l \<Longrightarrow>
   read_loop rd fs sp path inp ln st =
     Some (Inr (push_back
        (st\<lparr>concat_line_num := concat_line_num st + int (length (lines_of inp)),
            program := program st @ inp\<rparr>)
        (concat_line_num st + int (length (lines_of inp)))
        (ln - 1 + int (length (lines_of inp))) ''end'' path))"
proof (induction inp arbitrary: ln st rule: lines_of.induct)
  case (1 inp)
  obtain line rest where rl: "read_line inp = (line, rest)" by (cases "read_line inp")
  show ?case
  proof (cases "line = []")
    case True
    with rl have "inp = []" by (auto dest: read_line_empty)
    with rl True show ?thesis
      by (subst read_loop.simps, subst (1 2 3) lines_of.simps) (simp add: push_back_def)
  next
    case False
    from rl False have lo: "lines_of inp = line # lines_of rest"
      by (subst lines_of.simps) simp
    from "1.prems" lo have plain: "\<not> starts_with ''#include '' line"
      and rest: "\<forall>l\<in>set (lines_of rest). \<not> starts_with ''#include '' l" by simp_all
    from rl have whole: "line @ rest = inp" by (rule read_line_whole)
    have "read_loop rd fs sp path inp ln st =
          read_loop rd fs sp path rest (ln + 1)
            (st\<lparr>concat_line_num := concat_line_num st + 1, program := program st @ line\<rparr>)"
      using rl False plain by (subst read_loop.simps) simp
    also note "1.IH" [OF rl [symmetric] False rest]
    finally show ?thesis using whole by (simp add: lo push_back_def add.assoc)
  qed
qed

text \<open>
  Claim C3. A primary document without include directives is flattened to itself,
  character for character, and every line number \<open>k\<close> of the document, counted from 1,
  resolves against the log of that pass to the one-entry chain \<open>[(name, k)]\<close>, where
  \<open>name\<close> is the name given to the constructor.
\<close>

theorem no_include_verbatim:
  assumes "\<forall>l\<in>set (lines_of inp). \<not> starts_with ''#include '' l"
  shows "\<exists>r. program_reader (Suc n) fs inp name search_path = Some (Inr r)
     \<and> program r = inp
     \<and> (\<forall>k. 1 \<le> k \<and> k \<le> int (length (lines_of inp)) \<longrightarrow>
           include_stack (history r) k = [(name, k)])"
  by (simp add: program_reader_def read_loop_plain [OF assms] push_back_def include_stack_def)

theorem no_include_verbatim_witness:
  "list_all (\<lambda>l. \<not> starts_with ''#include '' l)
     (lines_of (''a'' @ [CHR ''\<newline>'', CHR ''\<newline>''] @ ''b''))
   \<and> (\<exists>r. program_reader (Suc 0) (\<lambda>p. None) (''a'' @ [CHR ''\<newline>'', CHR ''\<newline>''] @ ''b'')
            ''main'' [] = Some (Inr r)
        \<and> program r = ''a'' @ [CHR ''\<newline>'', CHR ''\<newline>''] @ ''b''
        \<and> include_stack (history r) 3 = [(''main'', 3)])"
proof -
  let ?inp = "''a'' @ [CHR ''\<newline>'', CHR ''\<newline>''] @ ''b''"
  have lo: "lines_of ?inp = [''a'' @ [CHR ''\<newline>''], [CHR ''\<newline>''], ''b'']"
    by code_simp
  have h: "\<forall>l\<in>set (lines_of ?inp). \<not> starts_with ''#include '' l"
    unfolding lo by (simp add: starts_with_def)
  then have h': "list_all (\<lambda>l. \<not> starts_with ''#include '' l) (lines_of ?inp)"
    by (simp only: list_all_iff)
  from no_include_verbatim [OF h, of 0 "\<lambda>p. None" "''main''" "[]"]
  obtain r where r: "program_reader (Suc 0) (\<lambda>p. None) ?inp ''main'' [] = Some (Inr r)"
    and p: "program r = ?inp"
    and k: "\<forall>k. 1 \<le> k \<and> k \<le> int (length (lines_of ?inp)) \<longrightarrow>
           include_stack (history r) k = [(''main'', k)]"
    by blast
  from k [rule_format, of 3] have "include_stack (history r) 3 = [(''main'', 3)]"
    by (simp add: lo [simplified])
  with r p h' show ?thesis by blast
qed

section \<open>One included document\<close>













section \<open>Invariants of a flattening pass\<close>

lemma search_loop_opened:
  "search_loop rd fs ds ip path ln st = Some (Inr st') \<Longrightarrow>
   \<exists>d\<in>set ds. fs (c_str (d @ ip)) \<noteq> None"
  by (induction ds) (auto split: option.splits)

lemma search_loop_invariant:
  assumes rd: "\<And>i p s res. rd i p s = Some res \<Longrightarrow> I s \<Longrightarrow> outcome_ok I res"
    and event: "\<And>s l a p. I s \<Longrightarrow> a \<noteq> ''include'' \<Longrightarrow>
                  I (push_back s (concat_line_num s) l a p)"
  shows "search_loop rd fs ds ip path ln st = Some res \<Longrightarrow> I st \<Longrightarrow> outcome_ok I res"
proof (induction ds)
  case Nil
  then show ?case by (auto simp: outcome_ok_def)
next
  case (Cons d ds)
  show ?case
  proof (cases "fs (c_str (d @ ip))")
    case None
    with Cons show ?thesis by simp
  next
    case (Some include_in)
    show ?thesis
    proof (cases "rd include_in ip st")
      case None
      with Some Cons.prems show ?thesis by simp
    next
      case inner: (Some r)
      from rd [OF inner Cons.prems(2)] have ok: "outcome_ok I r" .
      show ?thesis
      proof (cases r)
        case (Inl e)
        with Some inner Cons.prems ok show ?thesis by (auto simp: outcome_ok_def)
      next
        case (Inr s')
        with ok have "I s'" by (simp add: outcome_ok_def)
        then have "I (push_back s' (concat_line_num s') ln ''restart'' path)"
          by (rule event) simp
        with Some inner Inr Cons.prems show ?thesis by (auto simp: outcome_ok_def)
      qed
    qed
  qed
qed

lemma search_loop_missing:
  "\<forall>d\<in>set ds. fs (c_str (d @ ip)) = None \<Longrightarrow>
   search_loop rd fs ds ip path ln st = Some (Inl IncludeNotFound)"
  by (induction ds) simp_all

lemma read_loop_invariant:
  assumes rd: "\<And>i p s res. rd i p s = Some res \<Longrightarrow> I s \<Longrightarrow> outcome_ok I res"
    and event: "\<And>s l a p. I s \<Longrightarrow> a \<noteq> ''include'' \<Longrightarrow>
                  I (push_back s (concat_line_num s) l a p)"
    and directive: "\<And>s l p. I s \<Longrightarrow> \<exists>d\<in>set sp. fs (c_str (d @ p)) \<noteq> None \<Longrightarrow>
                  I (push_back s (concat_line_num s) l ''include'' p)"
    and copied: "\<And>s line. I s \<Longrightarrow>
                  I (s\<lparr>concat_line_num := concat_line_num s + 1, program := program s @ line\<rparr>)"
  shows "read_loop rd fs sp path inp ln st = Some res \<Longrightarrow> I st \<Longrightarrow> outcome_ok I res"
proof (induction "length inp" arbitrary: inp ln st rule: less_induct)
  case less
  obtain line rest where rl: "read_line inp = (line, rest)" by (cases "read_line inp")
  show ?case
  proof (cases "line = []")
    case True
    with rl less.prems(1) have "res = Inr (push_back st (concat_line_num st) (ln - 1) ''end'' path)"
      by (subst (asm) read_loop.simps) simp
    moreover have "I (push_back st (concat_line_num st) (ln - 1) ''end'' path)"
      by (rule event [OF less.prems(2)]) simp
    ultimately show ?thesis by (simp add: outcome_ok_def)
  next
    case False
    from read_line_whole [OF rl] False have shorter: "length rest < length inp" by auto
    show ?thesis
    proof (cases "starts_with ''#include '' line")
      case plain: False
      from rl False plain less.prems(1)
      have "read_loop rd fs sp path rest (ln + 1)
              (st\<lparr>concat_line_num := concat_line_num st + 1, program := program st @ line\<rparr>)
            = Some res"
        by (subst (asm) read_loop.simps) simp
      from less.hyps [OF shorter this copied [OF less.prems(2)]] show ?thesis .
    next
      case dir: True
      let ?ip = "include_path line"
      let ?st1 = "push_back st (concat_line_num st) (ln - 1) ''include'' ?ip"
      from rl False dir less.prems(1)
      have run: "(case search_loop rd fs sp ?ip path ln ?st1 of
                    Some (Inr st2) \<Rightarrow> read_loop rd fs sp path rest (ln + 1) st2
                  | r \<Rightarrow> r) = Some res"
        by (subst (asm) read_loop.simps) (simp add: Let_def)
      show ?thesis
      proof (cases "\<exists>d\<in>set sp. fs (c_str (d @ ?ip)) \<noteq> None")
        case False
        then have "search_loop rd fs sp ?ip path ln ?st1 = Some (Inl IncludeNotFound)"
          by (intro search_loop_missing) simp
        with run have "res = Inl IncludeNotFound" by simp
        then show ?thesis by (simp add: outcome_ok_def)
      next
        case True
        from directive [OF less.prems(2) True] have st1: "I ?st1" .
        from run obtain sr where sr: "search_loop rd fs sp ?ip path ln ?st1 = Some sr"
          by (cases "search_loop rd fs sp ?ip path ln ?st1") auto
        from search_loop_invariant [of rd I, OF rd event sr st1]
        have ok: "outcome_ok I sr" .
        show ?thesis
        proof (cases sr)
          case (Inl e)
          with run sr ok show ?thesis by simp
        next
          case (Inr st2)
          with run sr have "read_loop rd fs sp path rest (ln + 1) st2 = Some res" by simp
          moreover from ok Inr have "I st2" by (simp add: outcome_ok_def)
          ultimately show ?thesis using less.hyps [OF shorter] by blast
        qed
      qed
    qed
  qed
qed

lemma read_invariant:
  assumes event: "\<And>s l a p. I s \<Longrightarrow> a \<noteq> ''include'' \<Longrightarrow>
                  I (push_back s (concat_line_num s) l a p)"
    and directive: "\<And>s l p. I s \<Longrightarrow> \<exists>d\<in>set sp. fs (c_str (d @ p)) \<noteq> None \<Longrightarrow>
                  I (push_back s (concat_line_num s) l ''include'' p)"
    and copied: "\<And>s line. I s \<Longrightarrow>
                  I (s\<lparr>concat_line_num := concat_line_num s + 1, program := program s @ line\<rparr>)"
  shows "read n fs inp path sp st = Some res \<Longrightarrow> I st \<Longrightarrow> outcome_ok I res"
proof (induction n arbitrary: inp path st res)
  case 0
  then show ?case by simp
next
  case (Suc n)
  have "I (push_back st (concat_line_num st) 0 ''start'' path)"
    by (rule event [OF Suc.prems(2)]) simp
  with Suc.prems(1) show ?case
    using read_loop_invariant
      [of "\<lambda>include_in incl_path st'. read n fs include_in incl_path sp st'" I sp fs,
       OF Suc.IH event directive copied]
    by simp
qed

section \<open>The log is ordered\<close>

lemma log_ordered_event:
  "log_ordered s \<Longrightarrow> log_ordered (push_back s (concat_line_num s) l a p)"
  by (auto simp: log_ordered_def push_back_def sorted_append)

lemma log_ordered_copied:
  "log_ordered s \<Longrightarrow>
   log_ordered (s\<lparr>concat_line_num := concat_line_num s + 1, program := program s @ line\<rparr>)"
  by (fastforce simp: log_ordered_def)

text \<open>
  Claim C8. In the event log of every flattening pass that completes, the concatenated
  line numbers of the events do not decrease along the log: for all positions
  \<open>i \<le> j\<close> of the log, the number of event \<open>i\<close> is at most that of event \<open>j\<close>.
\<close>

theorem history_concat_monotone:
  assumes "program_reader n fs inp name search_path = Some (Inr r)"
  shows "\<forall>i j. i \<le> j \<and> j < length (history r) \<longrightarrow>
           e_concat_line_num (history r ! i) \<le> e_concat_line_num (history r ! j)"
proof -
  have "log_ordered \<lparr>concat_line_num = 0, program = [], history = []\<rparr>"
    by (simp add: log_ordered_def)
  from read_invariant [of log_ordered search_path fs, OF log_ordered_event log_ordered_event
      log_ordered_copied assms [unfolded program_reader_def] this]
  have "sorted (map e_concat_line_num (history r))"
    by (simp add: outcome_ok_def log_ordered_def)
  then show ?thesis
    by (auto simp: sorted_iff_nth_mono dest!: spec [of _ "(_ :: nat)"])
qed

theorem history_concat_monotone_witness:
  "\<exists>r. program_reader 2 example_files example_main ''main'' [''inc/''] = Some (Inr r)
     \<and> length (history r) = 6
     \<and> e_concat_line_num (history r ! 1) \<le> e_concat_line_num (history r ! 4)"
proof -
  obtain r where r: "program_reader 2 example_files example_main ''main'' [''inc/''] = Some (Inr r)"
    and len: "length (history r) = 6"
    using example_run by simp
  from history_concat_monotone [OF r, rule_format, of 1 4] len
  have "e_concat_line_num (history r ! 1) \<le> e_concat_line_num (history r ! 4)" by simp
  with r len show ?thesis by blast
qed

section \<open>Missing include files\<close>




lemma read_loop_directive:
  "read_line inp = (line, rest) \<Longrightarrow> starts_with ''#include '' line \<Longrightarrow>
   read_loop rd fs sp path inp ln st =
     (case search_loop rd fs sp (include_path line) path ln
             (push_back st (concat_line_num st) (ln - 1) ''include'' (include_path line)) of
        Some (Inr st2) \<Rightarrow> read_loop rd fs sp path rest (ln + 1) st2
      | r \<Rightarrow> r)"
  by (subst read_loop.simps) (auto simp: Let_def starts_with_def)



section \<open>The nesting bound\<close>

text \<open>
  The bound on the nesting exists in the model only. Raising it never changes an outcome
  that a smaller bound has produced.
\<close>


lemma search_loop_mono:
  assumes rd: "\<And>i p s r. rd i p s = Some r \<Longrightarrow> rd' i p s = Some r"
  shows "search_loop rd fs ds ip path ln st = Some res \<Longrightarrow>
         search_loop rd' fs ds ip path ln st = Some res"
proof (induction ds)
  case Nil
  then show ?case by simp
next
  case (Cons d ds)
  show ?case
  proof (cases "fs (c_str (d @ ip))")
    case None
    with Cons show ?thesis by simp
  next
    case (Some include_in)
    with Cons.prems obtain r where r: "rd include_in ip st = Some r"
      by (cases "rd include_in ip st") auto
    from rd [OF r] Some r Cons.prems show ?thesis by simp
  qed
qed

lemma read_loop_mono:
  assumes rd: "\<And>i p s r. rd i p s = Some r \<Longrightarrow> rd' i p s = Some r"
  shows "read_loop rd fs sp path inp ln st = Some res \<Longrightarrow>
         read_loop rd' fs sp path inp ln st = Some res"
proof (induction "length inp" arbitrary: inp ln st rule: less_induct)
  case less
  obtain line rest where rl: "read_line inp = (line, rest)" by (cases "read_line inp")
  show ?case
  proof (cases "line = []")
    case True
    with rl less.prems show ?thesis
      by (subst read_loop.simps, subst (asm) read_loop.simps) simp
  next
    case False
    from read_line_whole [OF rl] False have shorter: "length rest < length inp" by auto
    show ?thesis
    proof (cases "starts_with ''#include '' line")
      case plain: False
      from rl False plain less.prems
      have "read_loop rd fs sp path rest (ln + 1)
              (st\<lparr>concat_line_num := concat_line_num st + 1, program := program st @ line\<rparr>)
            = Some res"
        by (subst (asm) read_loop.simps) simp
      from less.hyps [OF shorter this] rl False plain show ?thesis
        by (subst read_loop.simps) simp
    next
      case dir: True
      let ?ip = "include_path line"
      let ?st1 = "push_back st (concat_line_num st) (ln - 1) ''include'' ?ip"
      from less.prems have run: "(case search_loop rd fs sp ?ip path ln ?st1 of
                    Some (Inr st2) \<Rightarrow> read_loop rd fs sp path rest (ln + 1) st2
                  | r \<Rightarrow> r) = Some res"
        by (simp add: read_loop_directive [OF rl dir])
      then obtain sr where sr: "search_loop rd fs sp ?ip path ln ?st1 = Some sr"
        by (cases "search_loop rd fs sp ?ip path ln ?st1") auto
      from search_loop_mono [of rd rd', OF rd sr]
      have sr': "search_loop rd' fs sp ?ip path ln ?st1 = Some sr" .
      show ?thesis
      proof (cases sr)
        case (Inl e)
        with run sr have "res = Inl e" by simp
        with sr' Inl show ?thesis by (simp add: read_loop_directive [OF rl dir])
      next
        case (Inr st2)
        with run sr have "read_loop rd fs sp path rest (ln + 1) st2 = Some res" by simp
        from less.hyps [OF shorter this] Inr sr' show ?thesis
          by (simp add: read_loop_directive [OF rl dir])
      qed
    qed
  qed
qed

lemma read_mono:
  "read n fs inp path sp st = Some res \<Longrightarrow> read (n + k) fs inp path sp st = Some res"
proof (induction n arbitrary: inp path st res)
  case 0
  then show ?case by simp
next
  case (Suc n)
  from Suc.prems show ?case
    using read_loop_mono
      [of "\<lambda>include_in incl_path st'. read n fs include_in incl_path sp st'"
          "\<lambda>include_in incl_path st'. read (n + k) fs include_in incl_path sp st'",
       OF Suc.IH]
    by simp
qed

section \<open>When a target is not found\<close>

lemma scan_depth_append:
  "scan_depth d (xs @ ys) = (case scan_depth d xs of None \<Rightarrow> None | Some d' \<Rightarrow> scan_depth d' ys)"
  by (induction xs arbitrary: d) (auto split: nat.splits)

lemma scan_depth_lift:
  "scan_depth d xs = Some d' \<Longrightarrow> scan_depth (d + k) xs = Some (d' + k)"
proof (induction xs arbitrary: d)
  case Nil
  then show ?case by simp
next
  case (Cons e xs)
  show ?case
  proof (cases "e_action e = ''include''")
    case True
    with Cons.prems have "scan_depth (Suc d) xs = Some d'" by simp
    from Cons.IH [OF this] True show ?thesis by simp
  next
    case notinc: False
    show ?thesis
    proof (cases "e_action e = ''end''")
      case True
      with notinc Cons.prems obtain j where j: "d = Suc j" and "scan_depth j xs = Some d'"
        by (cases d) auto
      from Cons.IH [OF this(2)] True notinc j show ?thesis by simp
    next
      case False
      with notinc Cons.prems have "scan_depth d xs = Some d'" by simp
      from Cons.IH [OF this] False notinc show ?thesis by simp
    qed
  qed
qed

lemma balanced_nested:
  assumes "scan_depth 0 b = Some 0" and "e_action i = ''include''" and "e_action e = ''end''"
  shows "scan_depth 0 (i # b @ [e]) = Some 0"
  using scan_depth_lift [OF assms(1), of 1] assms(2,3)
  by (simp add: scan_depth_append)

lemma include_stack_loop_covered:
  "scan_depth (length res) b = Some d \<Longrightarrow> \<exists>x\<in>set (b @ [e]). t \<le> e_concat_line_num x \<Longrightarrow>
   include_stack_loop t (b @ [e]) res f a c \<noteq> []"
proof (induction b arbitrary: res f a c d)
  case Nil
  then show ?case by simp
next
  case (Cons x b)
  show ?case
  proof (cases "t \<le> e_concat_line_num x")
    case True
    then show ?thesis by simp
  next
    case False
    with Cons.prems(2) have cov: "\<exists>x\<in>set (b @ [e]). t \<le> e_concat_line_num x" by auto
    show ?thesis
    proof (cases "e_action x = ''end''")
      case True
      with Cons.prems(1) obtain k where k: "length res = Suc k" and s: "scan_depth k b = Some d"
        by (cases "length res") auto
      from k have "length (butlast res) = k" by simp
      with s have "scan_depth (length (butlast res)) b = Some d" by simp
      from Cons.IH [OF this cov] True False k show ?thesis by auto
    next
      case notend: False
      show ?thesis
      proof (cases "e_action x = ''include''")
        case True
        with Cons.prems(1) have "scan_depth (length (res @ [(f, e_line_num x + 1)])) b = Some d"
          by simp
        from Cons.IH [OF this cov] True False show ?thesis by simp
      next
        case False
        with notend Cons.prems(1) have "scan_depth (length res) b = Some d" by simp
        from Cons.IH [OF this cov] False notend \<open>\<not> t \<le> e_concat_line_num x\<close>
        show ?thesis by simp
      qed
    qed
  qed
qed

lemma search_loop_nested:
  assumes rd: "\<And>i p s s'. rd i p s = Some (Inr s') \<Longrightarrow> nested_log s s'"
  shows "search_loop rd fs ds ip path ln st = Some (Inr st') \<Longrightarrow>
         \<exists>b e x. history st' = history st @ b @ [e, x] \<and> e_action e = ''end''
            \<and> scan_depth 0 b = Some 0 \<and> e_action x = ''restart''"
proof (induction ds)
  case Nil
  then show ?case by simp
next
  case (Cons d ds)
  show ?case
  proof (cases "fs (c_str (d @ ip))")
    case None
    with Cons show ?thesis by simp
  next
    case (Some include_in)
    with Cons.prems obtain s' where s': "rd include_in ip st = Some (Inr s')"
      and st': "st' = push_back s' (concat_line_num s') ln ''restart'' path"
      by (auto split: option.splits sum.splits)
    from rd [OF s'] obtain b e where "history s' = history st @ b @ [e]"
      "e_action e = ''end''" "scan_depth 0 b = Some 0"
      by (auto simp: nested_log_def)
    with st' show ?thesis by (auto simp: push_back_def)
  qed
qed

lemma read_loop_nested:
  assumes rd: "\<And>i p s s'. rd i p s = Some (Inr s') \<Longrightarrow> nested_log s s'"
  shows "read_loop rd fs sp path inp ln st = Some (Inr st') \<Longrightarrow> nested_log st st'"
proof (induction "length inp" arbitrary: inp ln st rule: less_induct)
  case less
  obtain line rest where rl: "read_line inp = (line, rest)" by (cases "read_line inp")
  show ?case
  proof (cases "line = []")
    case True
    with rl less.prems have "st' = push_back st (concat_line_num st) (ln - 1) ''end'' path"
      by (subst (asm) read_loop.simps) simp
    then show ?thesis by (simp add: nested_log_def push_back_def)
  next
    case False
    from read_line_whole [OF rl] False have shorter: "length rest < length inp" by auto
    show ?thesis
    proof (cases "starts_with ''#include '' line")
      case plain: False
      from rl False plain less.prems
      have "read_loop rd fs sp path rest (ln + 1)
              (st\<lparr>concat_line_num := concat_line_num st + 1, program := program st @ line\<rparr>)
            = Some (Inr st')"
        by (subst (asm) read_loop.simps) simp
      from less.hyps [OF shorter this] show ?thesis by (simp add: nested_log_def)
    next
      case dir: True
      let ?ip = "include_path line"
      let ?st1 = "push_back st (concat_line_num st) (ln - 1) ''include'' ?ip"
      from less.prems have run: "(case search_loop rd fs sp ?ip path ln ?st1 of
                    Some (Inr st2) \<Rightarrow> read_loop rd fs sp path rest (ln + 1) st2
                  | r \<Rightarrow> r) = Some (Inr st')"
        by (simp add: read_loop_directive [OF rl dir])
      then obtain st2 where sr: "search_loop rd fs sp ?ip path ln ?st1 = Some (Inr st2)"
        and cont: "read_loop rd fs sp path rest (ln + 1) st2 = Some (Inr st')"
        by (auto split: option.splits sum.splits)
      have "\<exists>b e x. history st2 = history ?st1 @ b @ [e, x] \<and> e_action e = ''end''
            \<and> scan_depth 0 b = Some 0 \<and> e_action x = ''restart''"
        using sr by (rule search_loop_nested [rotated]) (rule rd)
      then obtain b1 e1 x where
        h2: "history st2 = history ?st1 @ b1 @ [e1, x]" and e1: "e_action e1 = ''end''"
        and b1: "scan_depth 0 b1 = Some 0" and x: "e_action x = ''restart''"
        by blast
      from less.hyps [OF shorter cont] obtain b2 e2 where
        h': "history st' = history st2 @ b2 @ [e2]" and e2: "e_action e2 = ''end''"
        and b2: "scan_depth 0 b2 = Some 0"
        by (auto simp: nested_log_def)
      let ?i = "\<lparr>e_concat_line_num = concat_line_num st, e_line_num = ln - 1,
                 e_action = ''include'', e_path = ?ip\<rparr>"
      have "scan_depth 0 (?i # b1 @ [e1]) = Some 0"
        by (rule balanced_nested [OF b1 _ e1]) simp
      with x b2 have "scan_depth 0 ((?i # b1 @ [e1]) @ [x] @ b2) = Some 0"
        by (simp only: scan_depth_append) simp
      moreover from h2 h' have "history st' = history st @ ((?i # b1 @ [e1]) @ [x] @ b2) @ [e2]"
        by (simp add: push_back_def)
      ultimately show ?thesis using e2 unfolding nested_log_def by blast
    qed
  qed
qed

lemma read_nested:
  "read n fs inp path sp st = Some (Inr st') \<Longrightarrow> nested_log st st'"
proof (induction n arbitrary: inp path st st')
  case 0
  then show ?case by simp
next
  case (Suc n)
  from Suc.prems
  have "read_loop (\<lambda>include_in incl_path st'. read n fs include_in incl_path sp st')
          fs sp path inp 1 (push_back st (concat_line_num st) 0 ''start'' path) = Some (Inr st')"
    by simp
  then have "nested_log (push_back st (concat_line_num st) 0 ''start'' path) st'"
    by (rule read_loop_nested [rotated]) (rule Suc.IH)
  then obtain b e where "history st' = history st @
      (\<lparr>e_concat_line_num = concat_line_num st, e_line_num = 0, e_action = ''start'',
        e_path = path\<rparr> # b) @ [e]" "e_action e = ''end''" "scan_depth 0 b = Some 0"
    by (auto simp: nested_log_def push_back_def)
  moreover from this have "scan_depth 0 (\<lparr>e_concat_line_num = concat_line_num st, e_line_num = 0,
      e_action = ''start'', e_path = path\<rparr> # b) = Some 0" by simp
  ultimately show ?case unfolding nested_log_def by blast
qed

text \<open>
  Claim C4. Against the log of a flattening pass, \<open>include_trace\<close> fails with the
  target-not-found error if and only if the target is below 1 or no event of the log
  covers it, that is, every event has a concatenated line below the target and the scan
  runs through the log without a match. Against any log at all it fails in these two
  cases, it has no other failure, and the targets 0 and -1 always fail.
\<close>

theorem include_trace_fails_iff:
  "(program_reader n fs inp name search_path = Some (Inr r) \<longrightarrow>
      (include_trace (history r) t = Inl (TargetNotFound t) \<longleftrightarrow>
         t < 1 \<or> (\<forall>e\<in>set (history r). e_concat_line_num e < t)))
   \<and> (t < 1 \<or> (\<forall>e\<in>set h. e_concat_line_num e < t) \<longrightarrow>
        include_trace h t = Inl (TargetNotFound t))
   \<and> (\<forall>e. include_trace h t = Inl e \<longrightarrow> e = TargetNotFound t)
   \<and> include_trace h 0 = Inl (TargetNotFound 0)
   \<and> include_trace h (- 1) = Inl (TargetNotFound (- 1))"
proof (intro conjI impI)
  assume run: "program_reader n fs inp name search_path = Some (Inr r)"
  from read_nested [OF run [unfolded program_reader_def]]
  obtain b e where h: "history r = b @ [e]" and b: "scan_depth 0 b = Some 0"
    by (auto simp: nested_log_def)
  show "include_trace (history r) t = Inl (TargetNotFound t) \<longleftrightarrow>
         t < 1 \<or> (\<forall>e\<in>set (history r). e_concat_line_num e < t)"
  proof
    assume fails: "include_trace (history r) t = Inl (TargetNotFound t)"
    show "t < 1 \<or> (\<forall>e\<in>set (history r). e_concat_line_num e < t)"
    proof (rule ccontr)
      assume "\<not> (t < 1 \<or> (\<forall>e\<in>set (history r). e_concat_line_num e < t))"
      then have t: "1 \<le> t" and cov: "\<exists>x\<in>set (b @ [e]). t \<le> e_concat_line_num x"
        using h by (auto simp: not_less)
      from b have "scan_depth (length ([] :: dumps_t)) b = Some 0" by simp
      from include_stack_loop_covered [OF this cov]
      have "include_stack (history r) t \<noteq> []" by (simp add: include_stack_def h)
      with t fails show False by (auto simp: include_trace_def Let_def split: if_splits)
    qed
  next
    assume "t < 1 \<or> (\<forall>e\<in>set (history r). e_concat_line_num e < t)"
    then show "include_trace (history r) t = Inl (TargetNotFound t)"
      by (auto simp: include_trace_def include_stack_def include_stack_loop_uncovered)
  qed
next
  assume "t < 1 \<or> (\<forall>e\<in>set h. e_concat_line_num e < t)"
  then show "include_trace h t = Inl (TargetNotFound t)"
    by (auto simp: include_trace_def include_stack_def include_stack_loop_uncovered)
next
  show "\<forall>e. include_trace h t = Inl e \<longrightarrow> e = TargetNotFound t"
    by (auto simp: include_trace_def Let_def split: if_splits)
next
  show "include_trace h 0 = Inl (TargetNotFound 0)" by (simp add: include_trace_def)
next
  show "include_trace h (- 1) = Inl (TargetNotFound (- 1))" by (simp add: include_trace_def)
qed

theorem include_trace_fails_iff_witness:
  "\<exists>r. program_reader 2 example_files example_main ''main'' [''inc/''] = Some (Inr r)
     \<and> list_all (\<lambda>e. e_concat_line_num e < 6) (history r)
     \<and> include_trace (history r) 6 = Inl (TargetNotFound 6)
     \<and> include_trace (history r) 0 = Inl (TargetNotFound 0)"
proof -
  obtain r where r: "program_reader 2 example_files example_main ''main'' [''inc/''] = Some (Inr r)"
    and below: "\<forall>e\<in>set (history r). e_concat_line_num e < 6"
    using example_run by simp
  from below have below': "list_all (\<lambda>e. e_concat_line_num e < 6) (history r)"
    by (simp only: list_all_iff)
  note t = include_trace_fails_iff
    [where n = 2 and fs = example_files and inp = example_main and name = "''main''"
       and search_path = "[''inc/'']" and r = r and t = 6 and h = "history r"]
  from t r below have "include_trace (history r) 6 = Inl (TargetNotFound 6)" by blast
  moreover from t have "include_trace (history r) 0 = Inl (TargetNotFound 0)" by blast
  ultimately show ?thesis using r below' by blast
qed

end
